theory Spec2Isabelle
  imports Complex_Main "HOL-Library.Word"
begin

unbundle bit_operations_syntax

section \<open>RSA parity oracle attack (Set 6, challenge 46)\<close>

subsection \<open>Data\<close>

type_synonym byte = "8 word"
type_synonym bytes = "byte list"

text \<open>
  The two ways in which \<^verbatim>\<open>decrypt_attack\<close> can raise: the reduction \<^verbatim>\<open>% n\<close> with a zero
  modulus, and the \<^verbatim>\<open>return msg\<close> with \<^verbatim>\<open>msg\<close> never assigned.
\<close>

datatype error = ZeroDivisionError | UnboundLocalError

text \<open>
  The class \<^verbatim>\<open>RSA\<close> of \<^verbatim>\<open>Utils.PublicKey\<close> is a collaborator whose code is not part of
  \<^verbatim>\<open>challenge_46.py\<close>. An instance is represented by what the attack reads from it: the
  modulus \<^verbatim>\<open>n\<close> and the two integer-to-integer primitives
  \<^verbatim>\<open>encrypt(_, input_bytes=False)\<close> and \<^verbatim>\<open>decrypt(_, output_bytes=False)\<close>, taken as
  parameters. Python integers are unbounded, hence \<^typ>\<open>int\<close>.
\<close>

record RSA =
  rsa_n :: int
  rsa_encrypt :: "int \<Rightarrow> int"
  rsa_decrypt :: "int \<Rightarrow> int"

text \<open>\<^verbatim>\<open>class Oracle\<close>: its only attribute is \<^verbatim>\<open>self.rsa\<close>.\<close>

record Oracle =
  rsa :: RSA

text \<open>
  The local variables of \<^verbatim>\<open>decrypt_attack\<close> that the loop reads and writes. \<^verbatim>\<open>low\<close> and
  \<^verbatim>\<open>high\<close> start as the integers \<^verbatim>\<open>0\<close> and \<^verbatim>\<open>n\<close> and are later assigned
  \<^verbatim>\<open>Fraction\<close> values; both are exact rationals here. \<^verbatim>\<open>msg\<close> is unbound until the first
  iteration assigns it. The two effects of an iteration are kept as logs: \<open>stdout\<close> holds the
  printed lines \<^verbatim>\<open>Iteration {i}: {msg}\<close> as pairs, \<open>queries\<close> the ciphertexts passed to
  \<^verbatim>\<open>oracle.validate_msg\<close>, in call order.
\<close>

record attack_state =
  cipher :: int
  low_frac :: rat
  high_frac :: rat
  low :: rat
  high :: rat
  msg :: "bytes option"
  stdout :: "(nat \<times> bytes) list"
  queries :: "int list"

subsection \<open>Library functions\<close>

text \<open>Python's \<^verbatim>\<open>int.bit_length()\<close>: the number of binary digits of the absolute value.\<close>

fun bit_length_nat :: "nat \<Rightarrow> nat" where
  "bit_length_nat k = (if k = 0 then 0 else Suc (bit_length_nat (k div 2)))"

definition bit_length :: "int \<Rightarrow> nat" where
  "bit_length x = bit_length_nat (nat \<bar>x\<bar>)"

text \<open>
  Modelled from the spec: \<^verbatim>\<open>RSA.integer_to_bytes_squeezed\<close> belongs to the collaborator
  module \<^verbatim>\<open>Utils.PublicKey\<close>, which is not among the sources. The spec describes it as the
  conversion of an integer to its minimal-length byte sequence, with no superfluous leading
  zero byte, the integer \<open>0\<close> giving the empty sequence. The bytes are the base-256 digits,
  most significant first. The spec speaks of non-negative integers only; the value chosen
  here at a negative integer (the empty sequence) is not described by it.
\<close>

function integer_to_bytes_squeezed :: "int \<Rightarrow> bytes" where
  "integer_to_bytes_squeezed x =
     (if x \<le> 0 then []
      else integer_to_bytes_squeezed (x div 256) @ [word_of_int (x mod 256)])"
  by pat_completeness auto
termination
  by (relation "measure nat") auto

declare integer_to_bytes_squeezed.simps [simp del]

subsection \<open>The oracle\<close>

text \<open>
  \<^verbatim>\<open>Oracle.validate_msg\<close>: \<^verbatim>\<open>not msg & 1\<close> parses as \<^verbatim>\<open>not (msg & 1)\<close>, and an integer
  is falsy exactly when it is zero.
\<close>

definition validate_msg :: "Oracle \<Rightarrow> int \<Rightarrow> bool" where
  "validate_msg self c =
     (let m = rsa_decrypt (rsa self) c
      in \<not> (m AND 1 \<noteq> 0))"

subsection \<open>The attack\<close>

text \<open>Lines 69-70: the bounds before the first round.\<close>

definition initial_state :: "Oracle \<Rightarrow> int \<Rightarrow> attack_state" where
  "initial_state oracle c =
     \<lparr>cipher = c, low_frac = 0, high_frac = 1,
      low = 0, high = of_int (rsa_n (rsa oracle)),
      msg = None, stdout = [], queries = []\<rparr>"

text \<open>Lines 81-88: the branch on the oracle's answer \<^verbatim>\<open>res\<close>.\<close>

definition update_bounds :: "int \<Rightarrow> bool \<Rightarrow> attack_state \<Rightarrow> attack_state" where
  "update_bounds n res s =
     (if res then
        (let hf = (high_frac s - low_frac s) / 2 + low_frac s
         in s\<lparr>high_frac := hf, high := of_int n * hf\<rparr>)
      else
        (let lf = (high_frac s - low_frac s) / 2 + low_frac s
         in s\<lparr>low_frac := lf, low := of_int n * lf\<rparr>))"

text \<open>
  Lines 75-91: one iteration of the loop, for the index \<open>i\<close>. Python's \<^verbatim>\<open>%\<close> raises
  \<^verbatim>\<open>ZeroDivisionError\<close> for a zero modulus; otherwise it is the floored remainder, as
  \<open>mod\<close> on \<^typ>\<open>int\<close>.
\<close>

definition loop_body :: "Oracle \<Rightarrow> nat \<Rightarrow> attack_state \<Rightarrow> error + attack_state" where
  "loop_body oracle i s =
     (let n = rsa_n (rsa oracle) in
      if n = 0 then Inl ZeroDivisionError
      else
        let c = (cipher s * rsa_encrypt (rsa oracle) 2) mod n;
            res = validate_msg oracle c;
            s1 = update_bounds n res (s\<lparr>cipher := c, queries := queries s @ [c]\<rparr>);
            m = integer_to_bytes_squeezed \<lfloor>high s1\<rfloor>
        in Inr (s1\<lparr>msg := Some m, stdout := stdout s1 @ [(i, m)]\<rparr>))"

text \<open>The \<^verbatim>\<open>for\<close> loop over a list of indices; an exception ends it.\<close>

fun for_loop :: "Oracle \<Rightarrow> nat list \<Rightarrow> attack_state \<Rightarrow> error + attack_state" where
  "for_loop oracle [] s = Inr s"
| "for_loop oracle (i # is) s =
     (case loop_body oracle i s of
        Inl e \<Rightarrow> Inl e
      | Inr s' \<Rightarrow> for_loop oracle is s')"

text \<open>The state after the first \<open>j\<close> iterations of the loop.\<close>

definition rounds :: "Oracle \<Rightarrow> int \<Rightarrow> nat \<Rightarrow> error + attack_state" where
  "rounds oracle c j = for_loop oracle [0..<j] (initial_state oracle c)"

text \<open>Lines 68-91: the state when the loop has run \<^verbatim>\<open>range(n.bit_length())\<close>.\<close>

definition attack_run :: "Oracle \<Rightarrow> int \<Rightarrow> error + attack_state" where
  "attack_run oracle c =
     (let n = rsa_n (rsa oracle);
          num_repetitions = bit_length n
      in rounds oracle c num_repetitions)"

text \<open>\<^verbatim>\<open>decrypt_attack\<close>: line 93 returns \<^verbatim>\<open>msg\<close>, which raises if it was never bound.\<close>

definition decrypt_attack :: "Oracle \<Rightarrow> int \<Rightarrow> error + bytes" where
  "decrypt_attack oracle c =
     (case attack_run oracle c of
        Inl e \<Rightarrow> Inl e
      | Inr s \<Rightarrow> (case msg s of None \<Rightarrow> Inl UnboundLocalError | Some m \<Rightarrow> Inr m))"

text \<open>
  The bounds after a given sequence of oracle answers: lines 81-88 applied once per answer,
  in order. The loop computes exactly this for the answers its oracle gives.
\<close>

definition bisect :: "int \<Rightarrow> bool list \<Rightarrow> attack_state \<Rightarrow> attack_state" where
  "bisect n answers s = foldl (\<lambda>s res. update_bounds n res s) s answers"

text \<open>The value \<^verbatim>\<open>(high_frac - low_frac) / 2 + low_frac\<close> that lines 82 and 87 compute.\<close>

definition midpoint :: "attack_state \<Rightarrow> rat" where
  "midpoint s = (high_frac s - low_frac s) / 2 + low_frac s"

text \<open>The four bounds of a state, without the ciphertext and the logs.\<close>

definition bounds :: "attack_state \<Rightarrow> rat \<times> rat \<times> rat \<times> rat" where
  "bounds s = (low_frac s, high_frac s, low s, high s)"

text \<open>
  The integer that a byte sequence denotes, most significant byte first: what
  \<open>integer_to_bytes_squeezed\<close> has to give back.
\<close>

definition bytes_to_integer :: "bytes \<Rightarrow> int" where
  "bytes_to_integer bs = foldl (\<lambda>a b. a * 256 + uint b) 0 bs"

subsection \<open>Concrete keys\<close>

text \<open>
  A textbook RSA key with \<open>n = 3 \<times> 11\<close>, \<open>e = 3\<close>, \<open>d = 7\<close>, and one with the even
  modulus \<open>n = 2 \<times> 5\<close>, \<open>e = 3\<close>, \<open>d = 3\<close>; in both, decryption inverts encryption on
  \<open>[0, n)\<close>. The third key has the modulus zero.
\<close>

definition toy_rsa :: RSA where
  "toy_rsa = \<lparr>rsa_n = 33, rsa_encrypt = (\<lambda>m. m ^ 3 mod 33), rsa_decrypt = (\<lambda>c. c ^ 7 mod 33)\<rparr>"

definition toy_oracle :: Oracle where
  "toy_oracle = \<lparr>rsa = toy_rsa\<rparr>"

definition even_rsa :: RSA where
  "even_rsa = \<lparr>rsa_n = 10, rsa_encrypt = (\<lambda>m. m ^ 3 mod 10), rsa_decrypt = (\<lambda>c. c ^ 3 mod 10)\<rparr>"

definition even_oracle :: Oracle where
  "even_oracle = \<lparr>rsa = even_rsa\<rparr>"

definition zero_rsa :: RSA where
  "zero_rsa = \<lparr>rsa_n = 0, rsa_encrypt = (\<lambda>m. m), rsa_decrypt = (\<lambda>c. c)\<rparr>"

definition zero_oracle :: Oracle where
  "zero_oracle = \<lparr>rsa = zero_rsa\<rparr>"

section \<open>Properties\<close>

subsection \<open>The concrete keys\<close>

lemma toy_simps:
  "rsa_n (rsa toy_oracle) = 33"
  "rsa_encrypt (rsa toy_oracle) m = m ^ 3 mod 33"
  "rsa_decrypt (rsa toy_oracle) c = c ^ 7 mod 33"
  by (simp_all add: toy_oracle_def toy_rsa_def)

lemma even_simps:
  "rsa_n (rsa even_oracle) = 10"
  "rsa_encrypt (rsa even_oracle) m = m ^ 3 mod 10"
  "rsa_decrypt (rsa even_oracle) c = c ^ 3 mod 10"
  by (simp_all add: even_oracle_def even_rsa_def)

subsection \<open>Bit length\<close>

lemma bit_length_nat_upper: "k < 2 ^ bit_length_nat k"
proof (induction k rule: bit_length_nat.induct)
  case (1 k)
  show ?case
  proof (cases "k = 0")
    case True
    then show ?thesis by simp
  next
    case False
    with 1 have "k div 2 < 2 ^ bit_length_nat (k div 2)" by simp
    then have "k < 2 * 2 ^ bit_length_nat (k div 2)" by linarith
    with False show ?thesis by (subst bit_length_nat.simps) simp
  qed
qed

lemma bit_length_upper: "\<bar>x\<bar> < 2 ^ bit_length x"
proof -
  have "nat \<bar>x\<bar> < 2 ^ bit_length x"
    unfolding bit_length_def by (rule bit_length_nat_upper)
  then have "int (nat \<bar>x\<bar>) < int (2 ^ bit_length x)" by (simp only: of_nat_less_iff)
  then show ?thesis by simp
qed

lemma bit_length_eq_0_iff: "bit_length x = 0 \<longleftrightarrow> x = 0"
  by (simp add: bit_length_def)

lemma bit_length_0: "bit_length 0 = 0"
  by (simp add: bit_length_def)

subsection \<open>The loop, one iteration at a time\<close>

lemma loop_body_zero:
  "rsa_n (rsa oracle) = 0 \<Longrightarrow> loop_body oracle i s = Inl ZeroDivisionError"
  by (simp add: loop_body_def)

lemma loop_body_defined:
  assumes "rsa_n (rsa oracle) \<noteq> 0"
  shows "\<exists>s'. loop_body oracle i s = Inr s'"
  using assms by (simp add: loop_body_def Let_def)

lemma loop_body_fields:
  assumes "loop_body oracle i s = Inr s'"
  defines "n \<equiv> rsa_n (rsa oracle)"
  defines "c \<equiv> (cipher s * rsa_encrypt (rsa oracle) 2) mod n"
  defines "res \<equiv> validate_msg oracle c"
  shows "cipher s' = c"
    and "queries s' = queries s @ [c]"
    and "low_frac s' = (if res then low_frac s else midpoint s)"
    and "high_frac s' = (if res then midpoint s else high_frac s)"
    and "low s' = (if res then low s else of_int n * midpoint s)"
    and "high s' = (if res then of_int n * midpoint s else high s)"
    and "msg s' = Some (integer_to_bytes_squeezed \<lfloor>high s'\<rfloor>)"
    and "stdout s' = stdout s @ [(i, integer_to_bytes_squeezed \<lfloor>high s'\<rfloor>)]"
  using assms
  by (auto simp: loop_body_def update_bounds_def midpoint_def Let_def split: if_splits)

lemma for_loop_append:
  "for_loop oracle (xs @ ys) s =
     (case for_loop oracle xs s of Inl e \<Rightarrow> Inl e | Inr s' \<Rightarrow> for_loop oracle ys s')"
  by (induction xs arbitrary: s) (auto split: sum.splits)

lemma rounds_0: "rounds oracle c 0 = Inr (initial_state oracle c)"
  by (simp add: rounds_def)

lemma rounds_Suc:
  "rounds oracle c (Suc j) =
     (case rounds oracle c j of Inl e \<Rightarrow> Inl e | Inr s \<Rightarrow> loop_body oracle j s)"
  by (simp add: rounds_def for_loop_append split: sum.splits)

lemma rounds_defined:
  assumes "rsa_n (rsa oracle) \<noteq> 0"
  shows "\<exists>s. rounds oracle c j = Inr s"
proof (induction j)
  case 0
  show ?case by (simp add: rounds_0)
next
  case (Suc j)
  then obtain s where "rounds oracle c j = Inr s" by blast
  with loop_body_defined [OF assms] show ?case by (simp add: rounds_Suc)
qed

subsection \<open>The bounds under a sequence of answers\<close>

lemma update_bounds_fields:
  "low_frac (update_bounds n res s) = (if res then low_frac s else midpoint s)"
  "high_frac (update_bounds n res s) = (if res then midpoint s else high_frac s)"
  "low (update_bounds n res s) = (if res then low s else of_int n * midpoint s)"
  "high (update_bounds n res s) = (if res then of_int n * midpoint s else high s)"
  by (simp_all add: update_bounds_def midpoint_def Let_def)

lemma bisect_Nil: "bisect n [] s = s"
  by (simp add: bisect_def)

lemma bisect_snoc: "bisect n (answers @ [res]) s = update_bounds n res (bisect n answers s)"
  by (simp add: bisect_def)

lemma midpoint_between:
  assumes "low_frac s \<le> high_frac s"
  shows "low_frac s \<le> midpoint s" and "midpoint s \<le> high_frac s"
  using assms by (simp_all add: midpoint_def field_simps)

lemma update_bounds_ordered:
  assumes "0 \<le> low_frac s" "low_frac s \<le> high_frac s" "high_frac s \<le> 1"
  shows "0 \<le> low_frac (update_bounds n res s)"
    and "low_frac (update_bounds n res s) \<le> high_frac (update_bounds n res s)"
    and "high_frac (update_bounds n res s) \<le> 1"
  using assms midpoint_between [of s] by (auto simp: update_bounds_fields)

lemma bisect_invariant:
  "0 \<le> low_frac (bisect n answers (initial_state oracle c)) \<and>
   low_frac (bisect n answers (initial_state oracle c))
     \<le> high_frac (bisect n answers (initial_state oracle c)) \<and>
   high_frac (bisect n answers (initial_state oracle c)) \<le> 1"
proof (induction answers rule: rev_induct)
  case Nil
  show ?case by (simp add: bisect_Nil initial_state_def)
next
  case (snoc res answers)
  then show ?case
    using update_bounds_ordered [of "bisect n answers (initial_state oracle c)" n res]
    by (simp add: bisect_snoc)
qed

lemma loop_body_bounds:
  assumes "loop_body oracle i s = Inr s'"
  shows "bounds s' =
     bounds (update_bounds (rsa_n (rsa oracle))
       (validate_msg oracle ((cipher s * rsa_encrypt (rsa oracle) 2) mod rsa_n (rsa oracle))) s)"
  using loop_body_fields [OF assms] by (simp add: bounds_def update_bounds_fields)

lemma update_bounds_cong:
  "bounds s = bounds t \<Longrightarrow> bounds (update_bounds n res s) = bounds (update_bounds n res t)"
  by (simp add: bounds_def update_bounds_fields midpoint_def)

text \<open>The loop's bounds are those of bisect on the answers the oracle gave.\<close>

lemma rounds_bisect:
  assumes "rounds oracle c j = Inr s"
  shows "bounds s =
     bounds (bisect (rsa_n (rsa oracle)) (map (validate_msg oracle) (queries s))
       (initial_state oracle c))
     \<and> length (queries s) = j"
  using assms
proof (induction j arbitrary: s)
  case 0
  then show ?case by (auto simp: rounds_0 bisect_Nil initial_state_def)
next
  case (Suc j)
  from Suc.prems obtain t where t: "rounds oracle c j = Inr t" and b: "loop_body oracle j t = Inr s"
    by (auto simp: rounds_Suc split: sum.splits)
  note IH = Suc.IH [OF t]
  note f = loop_body_fields [OF b]
  have "bounds s = bounds (update_bounds (rsa_n (rsa oracle))
       (validate_msg oracle ((cipher t * rsa_encrypt (rsa oracle) 2) mod rsa_n (rsa oracle))) t)"
    by (rule loop_body_bounds [OF b])
  also have "\<dots> = bounds (update_bounds (rsa_n (rsa oracle))
       (validate_msg oracle ((cipher t * rsa_encrypt (rsa oracle) 2) mod rsa_n (rsa oracle)))
       (bisect (rsa_n (rsa oracle)) (map (validate_msg oracle) (queries t)) (initial_state oracle c)))"
    using IH by (intro update_bounds_cong) simp
  finally show ?case using IH by (simp add: f(2) bisect_snoc)
qed

lemma rounds_low_high:
  assumes "rounds oracle c j = Inr s"
  shows "low s = of_int (rsa_n (rsa oracle)) * low_frac s
       \<and> high s = of_int (rsa_n (rsa oracle)) * high_frac s"
  using assms
proof (induction j arbitrary: s)
  case 0
  then show ?case by (auto simp: rounds_0 initial_state_def)
next
  case (Suc j)
  from Suc.prems obtain t where t: "rounds oracle c j = Inr t" and b: "loop_body oracle j t = Inr s"
    by (auto simp: rounds_Suc split: sum.splits)
  from Suc.IH [OF t] loop_body_fields [OF b] show ?case by simp
qed

lemma rounds_invariant:
  assumes "rounds oracle c j = Inr s"
  shows "0 \<le> low_frac s \<and> low_frac s \<le> high_frac s \<and> high_frac s \<le> 1"
proof -
  from rounds_bisect [OF assms]
  have "low_frac s = low_frac (bisect (rsa_n (rsa oracle)) (map (validate_msg oracle) (queries s))
       (initial_state oracle c))"
    and "high_frac s = high_frac (bisect (rsa_n (rsa oracle)) (map (validate_msg oracle) (queries s))
       (initial_state oracle c))"
    by (simp_all add: bounds_def)
  with bisect_invariant [of "rsa_n (rsa oracle)" "map (validate_msg oracle) (queries s)" "oracle" c]
  show ?thesis by simp
qed

lemma rounds_logs:
  assumes "rounds oracle c j = Inr s"
  shows "length (queries s) = j \<and> map fst (stdout s) = [0..<j]
       \<and> (j = 0 \<longrightarrow> msg s = None)
       \<and> (0 < j \<longrightarrow> msg s = Some (integer_to_bytes_squeezed \<lfloor>high s\<rfloor>)
                 \<and> last (stdout s) = (j - 1, integer_to_bytes_squeezed \<lfloor>high s\<rfloor>))"
  using assms
proof (induction j arbitrary: s)
  case 0
  then show ?case by (auto simp: rounds_0 initial_state_def)
next
  case (Suc j)
  from Suc.prems obtain t where t: "rounds oracle c j = Inr t" and b: "loop_body oracle j t = Inr s"
    by (auto simp: rounds_Suc split: sum.splits)
  from Suc.IH [OF t] loop_body_fields [OF b] show ?case by simp
qed

subsection \<open>The halving rule\<close>

text \<open>
  Claim C2. One iteration from any state \<open>s\<close>, for a non-zero modulus: the iteration
  completes, and with \<open>even\<close> the oracle's answer for the doubled ciphertext, if \<open>even\<close>
  holds then \<open>high_frac\<close> becomes \<open>low_frac + (high_frac - low_frac) / 2\<close> while
  \<open>low_frac\<close> and its mirror \<open>low\<close> keep their values; otherwise \<open>low_frac\<close> becomes
  that midpoint while \<open>high_frac\<close> and its mirror \<open>high\<close> keep theirs.
\<close>

theorem round_updates_one_bound:
  assumes "rsa_n (rsa oracle) \<noteq> 0"
  shows "\<exists>s'. loop_body oracle i s = Inr s' \<and>
     (if validate_msg oracle ((cipher s * rsa_encrypt (rsa oracle) 2) mod rsa_n (rsa oracle))
      then high_frac s' = low_frac s + (high_frac s - low_frac s) / 2
         \<and> low_frac s' = low_frac s \<and> low s' = low s
      else low_frac s' = low_frac s + (high_frac s - low_frac s) / 2
         \<and> high_frac s' = high_frac s \<and> high s' = high s)"
proof -
  from loop_body_defined [OF assms] obtain s' where b: "loop_body oracle i s = Inr s'" by blast
  from loop_body_fields [OF b] have
    "if validate_msg oracle ((cipher s * rsa_encrypt (rsa oracle) 2) mod rsa_n (rsa oracle))
      then high_frac s' = low_frac s + (high_frac s - low_frac s) / 2
         \<and> low_frac s' = low_frac s \<and> low s' = low s
      else low_frac s' = low_frac s + (high_frac s - low_frac s) / 2
         \<and> high_frac s' = high_frac s \<and> high s' = high s"
    by (simp add: midpoint_def)
  with b show ?thesis by blast
qed

theorem round_updates_one_bound_witness:
  "rsa_n (rsa toy_oracle) \<noteq> 0 \<and>
   \<not> validate_msg toy_oracle 13 \<and> validate_msg toy_oracle 5 \<and>
   (\<exists>s'. loop_body toy_oracle 0 (initial_state toy_oracle 14) = Inr s' \<and>
      low_frac s' = 1 / 2 \<and> high_frac s' = 1 \<and> high s' = 33) \<and>
   (\<exists>s'. loop_body toy_oracle 1 (initial_state toy_oracle 13) = Inr s' \<and>
      low_frac s' = 0 \<and> high_frac s' = 1 / 2 \<and> low s' = 0)"
  using round_updates_one_bound [of toy_oracle 0 "initial_state toy_oracle 14"]
    round_updates_one_bound [of toy_oracle 1 "initial_state toy_oracle 13"]
  by (auto simp: toy_simps validate_msg_def initial_state_def)

subsection \<open>The bounds stay ordered inside the unit interval\<close>

text \<open>
  Claim C3. The exact rational bounds satisfy \<open>0 \<le> low_frac \<le> high_frac \<le> 1\<close>: after any
  sequence of boolean answers whatever (first conjunct, on \<open>bisect\<close>), and at every point of
  the loop with any oracle, that is after any number \<open>j\<close> of iterations, each of which
  completes when the modulus is not zero (second conjunct).
\<close>

theorem bounds_invariant:
  "(0 \<le> low_frac (bisect n answers (initial_state oracle c)) \<and>
    low_frac (bisect n answers (initial_state oracle c))
      \<le> high_frac (bisect n answers (initial_state oracle c)) \<and>
    high_frac (bisect n answers (initial_state oracle c)) \<le> 1) \<and>
   (rsa_n (rsa oracle) \<noteq> 0 \<longrightarrow>
      (\<exists>s. rounds oracle c j = Inr s \<and>
        0 \<le> low_frac s \<and> low_frac s \<le> high_frac s \<and> high_frac s \<le> 1))"
proof (intro conjI impI)
  assume "rsa_n (rsa oracle) \<noteq> 0"
  from rounds_defined [OF this] obtain s where s: "rounds oracle c j = Inr s" by blast
  from rounds_invariant [OF s] s
  show "\<exists>s. rounds oracle c j = Inr s \<and>
        0 \<le> low_frac s \<and> low_frac s \<le> high_frac s \<and> high_frac s \<le> 1"
    by blast
qed (simp_all add: bisect_invariant)

theorem bounds_invariant_witness:
  "(low_frac (bisect 33 [False, True, False] (initial_state toy_oracle 14)) = 5 / 8 \<and>
    high_frac (bisect 33 [False, True, False] (initial_state toy_oracle 14)) = 3 / 4) \<and>
   rsa_n (rsa toy_oracle) \<noteq> 0 \<and>
   (\<exists>s. rounds toy_oracle 14 3 = Inr s \<and>
        0 \<le> low_frac s \<and> low_frac s \<le> high_frac s \<and> high_frac s \<le> 1)"
  using bounds_invariant [of 33 "[False, True, False]" toy_oracle 14 3]
  by (simp add: toy_simps bisect_def update_bounds_def initial_state_def)

subsection \<open>Each round halves the interval\<close>

text \<open>
  Claim C4. After any sequence of answers, one more round with any answer \<open>res\<close> leaves
  \<open>high_frac - low_frac\<close> at exactly half its value, does not lower \<open>low_frac\<close> and does
  not raise \<open>high_frac\<close> (first conjunct). The same holds between the states of the loop
  after \<open>j\<close> and after \<open>j + 1\<close> iterations, for any oracle (second conjunct).
\<close>

theorem interval_halves:
  "(high_frac (update_bounds n res (bisect n answers (initial_state oracle c)))
      - low_frac (update_bounds n res (bisect n answers (initial_state oracle c)))
      = (high_frac (bisect n answers (initial_state oracle c))
         - low_frac (bisect n answers (initial_state oracle c))) / 2 \<and>
    low_frac (bisect n answers (initial_state oracle c))
      \<le> low_frac (update_bounds n res (bisect n answers (initial_state oracle c))) \<and>
    high_frac (update_bounds n res (bisect n answers (initial_state oracle c)))
      \<le> high_frac (bisect n answers (initial_state oracle c))) \<and>
   (rsa_n (rsa oracle) \<noteq> 0 \<longrightarrow>
      (\<exists>s s'. rounds oracle c j = Inr s \<and> rounds oracle c (Suc j) = Inr s' \<and>
         high_frac s' - low_frac s' = (high_frac s - low_frac s) / 2 \<and>
         low_frac s \<le> low_frac s' \<and> high_frac s' \<le> high_frac s))"
proof (intro conjI impI)
  let ?b = "bisect n answers (initial_state oracle c)"
  from bisect_invariant [of n answers "oracle" c] have le: "low_frac ?b \<le> high_frac ?b"
    by simp
  show "high_frac (update_bounds n res ?b) - low_frac (update_bounds n res ?b)
      = (high_frac ?b - low_frac ?b) / 2"
    by (simp add: update_bounds_fields midpoint_def field_simps)
  show "low_frac ?b \<le> low_frac (update_bounds n res ?b)"
    using midpoint_between [OF le] by (simp add: update_bounds_fields)
  show "high_frac (update_bounds n res ?b) \<le> high_frac ?b"
    using midpoint_between [OF le] by (simp add: update_bounds_fields)
next
  assume nz: "rsa_n (rsa oracle) \<noteq> 0"
  from rounds_defined [OF nz] obtain s where s: "rounds oracle c j = Inr s" by blast
  from loop_body_defined [OF nz] obtain s' where b: "loop_body oracle j s = Inr s'" by blast
  from s b have s': "rounds oracle c (Suc j) = Inr s'" by (simp add: rounds_Suc)
  from rounds_invariant [OF s] have le: "low_frac s \<le> high_frac s" by simp
  note f = loop_body_fields [OF b]
  have "high_frac s' - low_frac s' = (high_frac s - low_frac s) / 2"
    by (simp add: f midpoint_def field_simps)
  moreover have "low_frac s \<le> low_frac s'"
    using midpoint_between [OF le] by (simp add: f)
  moreover have "high_frac s' \<le> high_frac s"
    using midpoint_between [OF le] by (simp add: f)
  ultimately show "\<exists>s s'. rounds oracle c j = Inr s \<and> rounds oracle c (Suc j) = Inr s' \<and>
         high_frac s' - low_frac s' = (high_frac s - low_frac s) / 2 \<and>
         low_frac s \<le> low_frac s' \<and> high_frac s' \<le> high_frac s"
    using s s' by blast
qed

theorem interval_halves_witness:
  "(low_frac (bisect 33 [False, True] (initial_state toy_oracle 14)) = 1 / 2 \<and>
    high_frac (bisect 33 [False, True] (initial_state toy_oracle 14)) = 3 / 4 \<and>
    low_frac (update_bounds 33 False (bisect 33 [False, True] (initial_state toy_oracle 14))) = 5 / 8 \<and>
    high_frac (update_bounds 33 False (bisect 33 [False, True] (initial_state toy_oracle 14))) = 3 / 4) \<and>
   rsa_n (rsa toy_oracle) \<noteq> 0 \<and>
   (\<exists>s s'. rounds toy_oracle 14 2 = Inr s \<and> rounds toy_oracle 14 (Suc 2) = Inr s' \<and>
         high_frac s' - low_frac s' = (high_frac s - low_frac s) / 2 \<and>
         low_frac s \<le> low_frac s' \<and> high_frac s' \<le> high_frac s)"
  using interval_halves [of 33 False "[False, True]" toy_oracle 14 2]
  by (simp add: toy_simps bisect_def update_bounds_def initial_state_def)

subsection \<open>The parity oracle\<close>

text \<open>
  Claim C6. \<open>validate_msg\<close> is true exactly when the integer that the private key decrypts
  the ciphertext to has lowest bit 0, that is, when it is even. Its result type is
  \<^typ>\<open>bool\<close>: the truth value is all it returns.
\<close>

theorem validate_msg_iff_even:
  "(validate_msg self c \<longleftrightarrow> \<not> bit (rsa_decrypt (rsa self) c) 0) \<and>
   (validate_msg self c \<longleftrightarrow> even (rsa_decrypt (rsa self) c))"
  by (simp add: validate_msg_def and_one_eq bit_0 even_iff_mod_2_eq_zero)

subsection \<open>The number of rounds\<close>

text \<open>
  Claim C7. For every oracle and every ciphertext the loop of \<open>decrypt_attack\<close> runs to its
  end, and when it ends exactly \<open>bit_length n\<close> ciphertexts have been passed to the oracle and
  exactly the lines for the indices \<open>0, \<dots>, bit_length n - 1\<close> have been printed, whatever
  the oracle answered.
\<close>

theorem attack_run_round_count:
  "\<exists>s. attack_run oracle c = Inr s \<and>
     length (queries s) = bit_length (rsa_n (rsa oracle)) \<and>
     map fst (stdout s) = [0..<bit_length (rsa_n (rsa oracle))]"
proof (cases "rsa_n (rsa oracle) = 0")
  case True
  then show ?thesis
    by (simp add: attack_run_def bit_length_0 rounds_0 initial_state_def)
next
  case False
  from rounds_defined [OF False]
  obtain s where s: "rounds oracle c (bit_length (rsa_n (rsa oracle))) = Inr s" by blast
  from rounds_logs [OF s] s show ?thesis by (simp add: attack_run_def)
qed

subsection \<open>The integer mirrors of the bounds\<close>

text \<open>
  Claim C9. After every number \<open>j\<close> of iterations (each completes when the modulus is not
  zero) the mirrors are in sync with the exact bounds, \<open>high = n * high_frac\<close> and
  \<open>low = n * low_frac\<close>; and from the first iteration on, the candidate just printed and
  held in \<open>msg\<close> is the byte form of \<open>\<lfloor>n * high_frac\<rfloor>\<close>.
\<close>

theorem mirrors_in_sync:
  assumes "rsa_n (rsa oracle) \<noteq> 0"
  shows "\<exists>s. rounds oracle c j = Inr s \<and>
     high s = of_int (rsa_n (rsa oracle)) * high_frac s \<and>
     low s = of_int (rsa_n (rsa oracle)) * low_frac s \<and>
     (0 < j \<longrightarrow>
        msg s = Some (integer_to_bytes_squeezed \<lfloor>of_int (rsa_n (rsa oracle)) * high_frac s\<rfloor>) \<and>
        last (stdout s) =
          (j - 1, integer_to_bytes_squeezed \<lfloor>of_int (rsa_n (rsa oracle)) * high_frac s\<rfloor>))"
proof -
  from rounds_defined [OF assms] obtain s where s: "rounds oracle c j = Inr s" by blast
  from rounds_low_high [OF s] rounds_logs [OF s] s show ?thesis by auto
qed

theorem mirrors_in_sync_witness:
  "rsa_n (rsa toy_oracle) \<noteq> 0 \<and> (0::nat) < 2 \<and>
   (\<exists>s. rounds toy_oracle 14 2 = Inr s \<and>
     high s = 33 * high_frac s \<and> low s = 33 * low_frac s \<and>
     msg s = Some (integer_to_bytes_squeezed \<lfloor>33 * high_frac s\<rfloor>) \<and>
     last (stdout s) = (1, integer_to_bytes_squeezed \<lfloor>33 * high_frac s\<rfloor>))"
  using mirrors_in_sync [of toy_oracle 14 2]
  by (simp add: toy_simps)

subsection \<open>When the result is defined\<close>

text \<open>
  Claim C10. \<open>bit_length n\<close> is zero exactly for \<open>n = 0\<close>. With the modulus zero the loop
  body never runs and \<open>decrypt_attack\<close> fails at its \<^verbatim>\<open>return\<close> because \<^verbatim>\<open>msg\<close> is unbound.
  With a modulus \<open>n \<ge> 1\<close> the loop runs at least once and \<open>decrypt_attack\<close> returns a value.
  Hence a value is returned only if \<open>bit_length n \<ge> 1\<close>.
\<close>

theorem result_defined_iff_rounds:
  "(bit_length (rsa_n (rsa oracle)) = 0 \<longleftrightarrow> rsa_n (rsa oracle) = 0) \<and>
   (rsa_n (rsa oracle) = 0 \<longrightarrow>
      attack_run oracle c = Inr (initial_state oracle c) \<and>
      decrypt_attack oracle c = Inl UnboundLocalError) \<and>
   (1 \<le> rsa_n (rsa oracle) \<longrightarrow>
      1 \<le> bit_length (rsa_n (rsa oracle)) \<and> (\<exists>m. decrypt_attack oracle c = Inr m)) \<and>
   ((\<exists>m. decrypt_attack oracle c = Inr m) \<longrightarrow> 1 \<le> bit_length (rsa_n (rsa oracle)))"
proof -
  let ?n = "rsa_n (rsa oracle)"
  have zero: "attack_run oracle c = Inr (initial_state oracle c) \<and>
      decrypt_attack oracle c = Inl UnboundLocalError" if "?n = 0"
    using that
    by (simp add: decrypt_attack_def attack_run_def bit_length_0 rounds_0 initial_state_def)
  have pos: "1 \<le> bit_length ?n \<and> (\<exists>m. decrypt_attack oracle c = Inr m)" if "1 \<le> ?n"
  proof -
    from that have nz: "?n \<noteq> 0" by simp
    then have bl: "0 < bit_length ?n" using bit_length_eq_0_iff [of ?n] by auto
    from rounds_defined [OF nz]
    obtain s where s: "rounds oracle c (bit_length ?n) = Inr s" by blast
    from rounds_logs [OF s] bl s show ?thesis
      by (simp add: decrypt_attack_def attack_run_def)
  qed
  have only: "1 \<le> bit_length ?n" if "\<exists>m. decrypt_attack oracle c = Inr m"
  proof (rule ccontr)
    assume "\<not> 1 \<le> bit_length ?n"
    then have "bit_length ?n = 0" by simp
    then have "?n = 0" by (simp only: bit_length_eq_0_iff)
    with zero that show False by simp
  qed
  from zero pos only show ?thesis by (simp add: bit_length_eq_0_iff)
qed

theorem result_defined_iff_rounds_witness:
  "rsa_n (rsa zero_oracle) = 0 \<and> decrypt_attack zero_oracle 5 = Inl UnboundLocalError \<and>
   1 \<le> rsa_n (rsa toy_oracle) \<and> bit_length (rsa_n (rsa toy_oracle)) = 6 \<and>
   (\<exists>m. decrypt_attack toy_oracle 14 = Inr m)"
  using result_defined_iff_rounds [of zero_oracle 5] result_defined_iff_rounds [of toy_oracle 14]
  by (simp add: toy_simps zero_oracle_def zero_rsa_def bit_length_def)

subsection \<open>The byte conversion\<close>

text \<open>
  The modelled conversion is the one the spec describes: it gives the empty sequence for
  \<open>0\<close>, its result denotes the integer it was given, never starts with a zero byte, and
  has at most \<open>k\<close> bytes exactly when the integer is below \<open>256 ^ k\<close>.
\<close>

lemma integer_to_bytes_squeezed_nonpos: "x \<le> 0 \<Longrightarrow> integer_to_bytes_squeezed x = []"
  by (simp add: integer_to_bytes_squeezed.simps)

lemma integer_to_bytes_squeezed_pos:
  "0 < x \<Longrightarrow> integer_to_bytes_squeezed x =
     integer_to_bytes_squeezed (x div 256) @ [word_of_int (x mod 256)]"
  by (subst integer_to_bytes_squeezed.simps) simp

lemma uint_byte_of_mod: "uint (word_of_int (x mod 256) :: byte) = x mod 256"
  by (simp add: uint_word_of_int take_bit_eq_mod)

lemma bytes_to_integer_snoc: "bytes_to_integer (bs @ [b]) = bytes_to_integer bs * 256 + uint b"
  by (simp add: bytes_to_integer_def)

lemma bytes_to_integer_squeezed: "0 \<le> x \<Longrightarrow> bytes_to_integer (integer_to_bytes_squeezed x) = x"
proof (induction x rule: integer_to_bytes_squeezed.induct)
  case (1 x)
  show ?case
  proof (cases "x \<le> 0")
    case True
    with 1 show ?thesis by (simp add: integer_to_bytes_squeezed_nonpos bytes_to_integer_def)
  next
    case False
    then have "0 \<le> x div 256" by simp
    with 1 False have "bytes_to_integer (integer_to_bytes_squeezed (x div 256)) = x div 256"
      by simp
    with False show ?thesis
      by (simp add: integer_to_bytes_squeezed_pos bytes_to_integer_snoc uint_byte_of_mod)
  qed
qed

lemma integer_to_bytes_squeezed_no_leading_zero:
  "integer_to_bytes_squeezed x \<noteq> [] \<Longrightarrow> hd (integer_to_bytes_squeezed x) \<noteq> 0"
proof (induction x rule: integer_to_bytes_squeezed.induct)
  case (1 x)
  show ?case
  proof (cases "x \<le> 0")
    case True
    with 1 show ?thesis by (simp add: integer_to_bytes_squeezed_nonpos)
  next
    case False
    show ?thesis
    proof (cases "x div 256 \<le> 0")
      case True
      with False have "x < 256" by presburger
      with False have "x mod 256 = x" by simp
      with uint_byte_of_mod [of x] have "uint (word_of_int (x mod 256) :: byte) = x" by simp
      with False have "(word_of_int (x mod 256) :: byte) \<noteq> 0" by auto
      with False True show ?thesis
        by (simp add: integer_to_bytes_squeezed_pos integer_to_bytes_squeezed_nonpos)
    next
      case d: False
      then have ne: "integer_to_bytes_squeezed (x div 256) \<noteq> []"
        by (simp add: integer_to_bytes_squeezed_pos)
      with 1 False have "hd (integer_to_bytes_squeezed (x div 256)) \<noteq> 0" by simp
      with False ne show ?thesis by (simp add: integer_to_bytes_squeezed_pos)
    qed
  qed
qed

lemma length_integer_to_bytes_squeezed:
  "0 \<le> x \<Longrightarrow> x < 256 ^ k \<longleftrightarrow> length (integer_to_bytes_squeezed x) \<le> k"
proof (induction x arbitrary: k rule: integer_to_bytes_squeezed.induct)
  case (1 x)
  show ?case
  proof (cases "x \<le> 0")
    case True
    with 1 have "x = 0" by simp
    then show ?thesis by (simp add: integer_to_bytes_squeezed_nonpos)
  next
    case False
    show ?thesis
    proof (cases k)
      case 0
      with False show ?thesis by (simp add: integer_to_bytes_squeezed_pos)
    next
      case (Suc k')
      from False have "0 \<le> x div 256" by simp
      with 1 False have "x div 256 < 256 ^ k' \<longleftrightarrow>
          length (integer_to_bytes_squeezed (x div 256)) \<le> k'"
        by simp
      moreover have "x div 256 < 256 ^ k' \<longleftrightarrow> x < 256 ^ Suc k'"
      proof -
        define y :: int where "y = 256 ^ k'"
        have "x div 256 < y \<longleftrightarrow> x < 256 * y" by linarith
        then show ?thesis by (simp add: y_def)
      qed
      ultimately show ?thesis using False Suc by (simp add: integer_to_bytes_squeezed_pos)
    qed
  qed
qed

subsection \<open>The returned value\<close>

text \<open>
  Claim C8. For a positive modulus, when the loop has run its \<open>bit_length n\<close> rounds,
  \<open>decrypt_attack\<close> returns \<open>\<lfloor>high_frac * n\<rfloor>\<close> of the final bounds, a non-negative
  integer, converted by \<open>integer_to_bytes_squeezed\<close>; this is the candidate printed by
  the last round, the one with index \<open>bit_length n - 1\<close>.
\<close>

theorem decrypt_attack_returns_last_candidate:
  assumes "0 < rsa_n (rsa oracle)"
  shows "\<exists>s. attack_run oracle c = Inr s \<and>
     0 \<le> \<lfloor>high_frac s * of_int (rsa_n (rsa oracle))\<rfloor> \<and>
     decrypt_attack oracle c =
       Inr (integer_to_bytes_squeezed \<lfloor>high_frac s * of_int (rsa_n (rsa oracle))\<rfloor>) \<and>
     last (stdout s) =
       (bit_length (rsa_n (rsa oracle)) - 1,
        integer_to_bytes_squeezed \<lfloor>high_frac s * of_int (rsa_n (rsa oracle))\<rfloor>)"
proof -
  let ?n = "rsa_n (rsa oracle)"
  from assms have nz: "?n \<noteq> 0" by simp
  then have bl: "0 < bit_length ?n" using bit_length_eq_0_iff [of ?n] by auto
  from rounds_defined [OF nz]
  obtain s where s: "rounds oracle c (bit_length ?n) = Inr s" by blast
  from rounds_invariant [OF s] assms have "0 \<le> high_frac s * of_int ?n" by simp
  then have "0 \<le> \<lfloor>high_frac s * of_int ?n\<rfloor>" by simp
  moreover from rounds_low_high [OF s] have "high s = high_frac s * of_int ?n"
    by (simp add: mult.commute)
  ultimately show ?thesis
    using rounds_logs [OF s] bl s by (simp add: decrypt_attack_def attack_run_def)
qed

theorem decrypt_attack_returns_last_candidate_witness:
  "0 < rsa_n (rsa toy_oracle) \<and>
   (\<exists>s. attack_run toy_oracle 14 = Inr s \<and>
     decrypt_attack toy_oracle 14 = Inr (integer_to_bytes_squeezed \<lfloor>high_frac s * 33\<rfloor>) \<and>
     last (stdout s) = (5, integer_to_bytes_squeezed \<lfloor>high_frac s * 33\<rfloor>))"
  using decrypt_attack_returns_last_candidate [of toy_oracle 14]
  by (auto simp: toy_simps bit_length_def)

subsection \<open>Doubling the plaintext\<close>

text \<open>
  What the attack needs of the collaborator's primitives, and what textbook RSA gives:
  multiplying a ciphertext by the encryption of 2 doubles its plaintext modulo \<open>n\<close>.
\<close>

lemma toy_homomorphic:
  "rsa_decrypt (rsa toy_oracle) ((x * rsa_encrypt (rsa toy_oracle) 2) mod rsa_n (rsa toy_oracle))
     = (2 * rsa_decrypt (rsa toy_oracle) x) mod rsa_n (rsa toy_oracle)"
proof -
  have "(x * 8 mod 33) ^ 7 mod 33 = (x * 8) ^ 7 mod 33"
    by (simp add: power_mod)
  also have "\<dots> = (x ^ 7 * 8 ^ 7) mod 33"
    by (simp only: power_mult_distrib)
  also have "\<dots> = ((x ^ 7 mod 33) * (8 ^ 7 mod 33)) mod 33"
    by (simp only: mod_mult_eq)
  also have "\<dots> = (2 * (x ^ 7 mod 33)) mod 33"
    by (simp add: mult.commute)
  finally show ?thesis by (simp add: toy_simps)
qed

lemma even_homomorphic:
  "rsa_decrypt (rsa even_oracle) ((x * rsa_encrypt (rsa even_oracle) 2) mod rsa_n (rsa even_oracle))
     = (2 * rsa_decrypt (rsa even_oracle) x) mod rsa_n (rsa even_oracle)"
proof -
  have "(x * 8 mod 10) ^ 3 mod 10 = (x * 8) ^ 3 mod 10"
    by (simp add: power_mod)
  also have "\<dots> = (x ^ 3 * 8 ^ 3) mod 10"
    by (simp only: power_mult_distrib)
  also have "\<dots> = ((x ^ 3 mod 10) * (8 ^ 3 mod 10)) mod 10"
    by (simp only: mod_mult_eq)
  also have "\<dots> = (2 * (x ^ 3 mod 10)) mod 10"
    by (simp add: mult.commute)
  finally show ?thesis by (simp add: even_simps)
qed

lemma rounds_queries_plaintext:
  assumes hom: "\<forall>x. rsa_decrypt (rsa oracle) ((x * rsa_encrypt (rsa oracle) 2) mod rsa_n (rsa oracle))
            = (2 * rsa_decrypt (rsa oracle) x) mod rsa_n (rsa oracle)"
    and m: "rsa_decrypt (rsa oracle) c = m"
    and s: "rounds oracle c j = Inr s"
  shows "(j = 0 \<longrightarrow> cipher s = c)
       \<and> (0 < j \<longrightarrow> rsa_decrypt (rsa oracle) (cipher s) = (2 ^ j * m) mod rsa_n (rsa oracle))
       \<and> length (queries s) = j
       \<and> (\<forall>i<j. rsa_decrypt (rsa oracle) (queries s ! i) = (2 ^ (i + 1) * m) mod rsa_n (rsa oracle))"
  using s
proof (induction j arbitrary: s)
  case 0
  then show ?case by (auto simp: rounds_0 initial_state_def)
next
  case (Suc j)
  let ?n = "rsa_n (rsa oracle)"
  let ?dec = "rsa_decrypt (rsa oracle)"
  from Suc.prems obtain t where t: "rounds oracle c j = Inr t" and b: "loop_body oracle j t = Inr s"
    by (auto simp: rounds_Suc split: sum.splits)
  note IH = Suc.IH [OF t]
  note f = loop_body_fields [OF b]
  have dbl: "?dec (cipher s) = (2 * ?dec (cipher t)) mod ?n"
    using hom by (simp add: f(1))
  have new: "?dec (cipher s) = (2 ^ Suc j * m) mod ?n"
  proof (cases "j = 0")
    case True
    with IH m dbl show ?thesis by simp
  next
    case False
    with IH have "?dec (cipher t) = (2 ^ j * m) mod ?n" by simp
    with dbl have "?dec (cipher s) = (2 * ((2 ^ j * m) mod ?n)) mod ?n" by simp
    also have "\<dots> = (2 * (2 ^ j * m)) mod ?n" by (simp only: mod_mult_right_eq)
    finally show ?thesis by (simp add: mult.assoc)
  qed
  have "\<forall>i<Suc j. ?dec (queries s ! i) = (2 ^ (i + 1) * m) mod ?n"
  proof (intro allI impI)
    fix i assume "i < Suc j"
    show "?dec (queries s ! i) = (2 ^ (i + 1) * m) mod ?n"
    proof (cases "i < j")
      case True
      with IH show ?thesis by (simp add: f(2) nth_append)
    next
      case False
      with \<open>i < Suc j\<close> have "i = j" by simp
      with IH new show ?thesis by (simp add: f(1,2) nth_append)
    qed
  qed
  with new IH show ?case by (simp add: f(2))
qed

subsection \<open>The answers follow the parity of the doubled plaintext\<close>

text \<open>
  Claim C5, amended. Let \<open>m\<close> be the plaintext of the target ciphertext, and let the key
  double plaintexts as textbook RSA does. Then the attack runs to its end with
  \<open>bit_length n\<close> queries, and for every round \<open>i\<close> from \<open>0\<close> to \<open>bit_length n - 1\<close> the
  oracle's answer to the query of that round is the negation of the parity bit of
  \<open>(2 ^ (i + 1) * m) mod n\<close>: the answer is true exactly when that bit is \<open>0\<close>.
\<close>

theorem parity_consistency:
  assumes "\<forall>x. rsa_decrypt (rsa oracle) ((x * rsa_encrypt (rsa oracle) 2) mod rsa_n (rsa oracle))
            = (2 * rsa_decrypt (rsa oracle) x) mod rsa_n (rsa oracle)"
    and "rsa_decrypt (rsa oracle) c = m"
  shows "\<exists>s. attack_run oracle c = Inr s \<and>
     length (queries s) = bit_length (rsa_n (rsa oracle)) \<and>
     (\<forall>i < bit_length (rsa_n (rsa oracle)).
        validate_msg oracle (queries s ! i)
          \<longleftrightarrow> ((2 ^ (i + 1) * m) mod rsa_n (rsa oracle)) AND 1 = 0)"
proof -
  let ?n = "rsa_n (rsa oracle)"
  have "\<exists>s. rounds oracle c (bit_length ?n) = Inr s"
  proof (cases "?n = 0")
    case True
    then show ?thesis by (simp add: bit_length_0 rounds_0)
  next
    case False
    then show ?thesis by (rule rounds_defined)
  qed
  then obtain s where s: "rounds oracle c (bit_length ?n) = Inr s" by blast
  from rounds_queries_plaintext [OF assms s] s show ?thesis
    by (auto simp: attack_run_def validate_msg_def)
qed

theorem parity_consistency_witness:
  "(\<forall>x. rsa_decrypt (rsa toy_oracle) ((x * rsa_encrypt (rsa toy_oracle) 2) mod rsa_n (rsa toy_oracle))
            = (2 * rsa_decrypt (rsa toy_oracle) x) mod rsa_n (rsa toy_oracle)) \<and>
   rsa_decrypt (rsa toy_oracle) 14 = 20 \<and>
   (\<exists>s. attack_run toy_oracle 14 = Inr s \<and> length (queries s) = 6 \<and>
      \<not> validate_msg toy_oracle (queries s ! 0) \<and>
      validate_msg toy_oracle (queries s ! 1) \<and>
      validate_msg toy_oracle (queries s ! 2) \<and>
      \<not> validate_msg toy_oracle (queries s ! 3) \<and>
      \<not> validate_msg toy_oracle (queries s ! 4) \<and>
      validate_msg toy_oracle (queries s ! 5))"
proof -
  have hom: "\<forall>x. rsa_decrypt (rsa toy_oracle) ((x * rsa_encrypt (rsa toy_oracle) 2) mod rsa_n (rsa toy_oracle))
            = (2 * rsa_decrypt (rsa toy_oracle) x) mod rsa_n (rsa toy_oracle)"
    by (intro allI toy_homomorphic)
  have m: "rsa_decrypt (rsa toy_oracle) 14 = 20" by (simp add: toy_simps)
  have bl: "bit_length (rsa_n (rsa toy_oracle)) = 6" by (simp add: toy_simps bit_length_def)
  from parity_consistency [OF hom m] obtain s where s: "attack_run toy_oracle 14 = Inr s"
    and l: "length (queries s) = 6"
    and a: "\<forall>i<6. validate_msg toy_oracle (queries s ! i)
          \<longleftrightarrow> ((2 ^ (i + 1) * 20) mod 33) AND (1::int) = 0"
    unfolding bl by (auto simp: toy_simps)
  from a [rule_format, of 0] have "\<not> validate_msg toy_oracle (queries s ! 0)" by (simp add: and_one_eq)
  moreover from a [rule_format, of 1] have "validate_msg toy_oracle (queries s ! 1)" by (simp add: and_one_eq)
  moreover from a [rule_format, of 2] have "validate_msg toy_oracle (queries s ! 2)" by (simp add: and_one_eq)
  moreover from a [rule_format, of 3] have "\<not> validate_msg toy_oracle (queries s ! 3)" by (simp add: and_one_eq)
  moreover from a [rule_format, of 4] have "\<not> validate_msg toy_oracle (queries s ! 4)" by (simp add: and_one_eq)
  moreover from a [rule_format, of 5] have "validate_msg toy_oracle (queries s ! 5)" by (simp add: and_one_eq)
  ultimately show ?thesis using hom m s l by blast
qed

text \<open>
  Claim C5 as stated, the answer equal to the parity bit, fails in every round: the answer
  is the negation of that bit. With the key \<open>n = 33\<close>, \<open>e = 3\<close>, \<open>d = 7\<close> and the plaintext
  \<open>m = 20\<close> of the ciphertext \<open>14\<close>, the first query is \<open>13\<close>, whose plaintext
  \<open>2 * 20 mod 33 = 7\<close> has parity bit \<open>1\<close>, and the answer is false; the second query is
  \<open>5\<close>, whose plaintext \<open>4 * 20 mod 33 = 14\<close> has parity bit \<open>0\<close>, and the answer is true.
\<close>

theorem answer_negates_parity_bit:
  "rsa_decrypt (rsa toy_oracle) 14 = 20 \<and>
   attack_run toy_oracle 14 =
     Inr \<lparr>cipher = 20, low_frac = 19 / 32, high_frac = 39 / 64, low = 627 / 32,
          high = 1287 / 64, msg = Some [20],
          stdout = [(0, [33]), (1, [24]), (2, [20]), (3, [20]), (4, [20]), (5, [20])],
          queries = [13, 5, 7, 23, 19, 20]\<rparr> \<and>
   validate_msg toy_oracle 13 = False \<and> ((2 ^ (0 + 1) * 20) mod 33) AND (1::int) = 1 \<and>
   validate_msg toy_oracle 5 = True \<and> ((2 ^ (1 + 1) * 20) mod 33) AND (1::int) = 0 \<and>
   of_bool (validate_msg toy_oracle 13) \<noteq> ((2 ^ (0 + 1) * 20) mod 33) AND (1::int)"
  by code_simp

subsection \<open>Convergence\<close>

lemma double_div:
  fixes n x :: int
  assumes "odd n" "0 < n"
  shows "(2 * x) div n = 2 * (x div n) + (if even ((2 * x) mod n) then 0 else 1)"
proof -
  define k where "k = x div n"
  define p where "p = x mod n"
  have x: "x = n * k + p" by (simp add: k_def p_def)
  have p: "0 \<le> p" "p < n" using assms by (simp_all add: p_def)
  show ?thesis
  proof (cases "2 * p < n")
    case True
    have e: "2 * x = n * (2 * k) + 2 * p" using x by (simp add: algebra_simps)
    from p True have d: "(2 * x) div n = 2 * k"
      by (intro int_div_pos_eq [OF e]) simp_all
    from p True have "(2 * x) mod n = 2 * p"
      by (intro int_mod_pos_eq [OF e]) simp_all
    with d show ?thesis by (simp add: k_def)
  next
    case False
    have e: "2 * x = n * (2 * k + 1) + (2 * p - n)" using x by (simp add: algebra_simps)
    from p False have d: "(2 * x) div n = 2 * k + 1"
      by (intro int_div_pos_eq [OF e]) simp_all
    from p False have "(2 * x) mod n = 2 * p - n"
      by (intro int_mod_pos_eq [OF e]) simp_all
    with assms have "odd ((2 * x) mod n)" by simp
    with d show ?thesis by (simp add: k_def)
  qed
qed

lemma rounds_bisection:
  assumes odd: "odd (rsa_n (rsa oracle))"
    and m: "0 \<le> m" "m < rsa_n (rsa oracle)"
    and hom: "\<forall>x. rsa_decrypt (rsa oracle) ((x * rsa_encrypt (rsa oracle) 2) mod rsa_n (rsa oracle))
            = (2 * rsa_decrypt (rsa oracle) x) mod rsa_n (rsa oracle)"
    and c: "rsa_decrypt (rsa oracle) c = m"
    and s: "rounds oracle c j = Inr s"
  shows "low_frac s = of_int ((2 ^ j * m) div rsa_n (rsa oracle)) / 2 ^ j
       \<and> high_frac s = (of_int ((2 ^ j * m) div rsa_n (rsa oracle)) + 1) / 2 ^ j"
  using s
proof (induction j arbitrary: s)
  case 0
  with m show ?case by (auto simp: rounds_0 initial_state_def)
next
  case (Suc j)
  let ?n = "rsa_n (rsa oracle)"
  let ?dec = "rsa_decrypt (rsa oracle)"
  from m have pos: "0 < ?n" by simp
  from Suc.prems obtain t where t: "rounds oracle c j = Inr t" and b: "loop_body oracle j t = Inr s"
    by (auto simp: rounds_Suc split: sum.splits)
  note IH = Suc.IH [OF t]
  note f = loop_body_fields [OF b]
  define k where "k = (2 ^ j * m) div ?n"
  from rounds_queries_plaintext [OF hom c Suc.prems]
  have "?dec (cipher s) = (2 ^ Suc j * m) mod ?n" by simp
  then have res: "validate_msg oracle (cipher s) \<longleftrightarrow> even ((2 * (2 ^ j * m)) mod ?n)"
    by (simp add: validate_msg_def and_one_eq even_iff_mod_2_eq_zero mult.assoc)
  have k': "(2 ^ Suc j * m) div ?n = 2 * k + (if validate_msg oracle (cipher s) then 0 else 1)"
    using double_div [OF odd pos, of "2 ^ j * m"] res by (simp add: k_def mult.assoc)
  from IH have lo: "low_frac t = of_int k / 2 ^ j" and hi: "high_frac t = (of_int k + 1) / 2 ^ j"
    by (simp_all add: k_def)
  have mid: "midpoint t = (of_int (2 * k) + 1) / 2 ^ Suc j"
    by (simp add: midpoint_def lo hi field_simps)
  have lo2: "low_frac t = of_int (2 * k) / 2 ^ Suc j"
    by (simp add: lo)
  have hi2: "high_frac t = (of_int (2 * k + 1) + 1) / 2 ^ Suc j"
    by (simp add: hi field_simps)
  show ?case
  proof (cases "validate_msg oracle (cipher s)")
    case True
    with k' have "(2 ^ Suc j * m) div ?n = 2 * k" by simp
    moreover from True f have "low_frac s = low_frac t" "high_frac s = midpoint t" by simp_all
    ultimately show ?thesis by (simp only: lo2 mid)
  next
    case False
    with k' have "(2 ^ Suc j * m) div ?n = 2 * k + 1" by simp
    moreover from False f have "low_frac s = midpoint t" "high_frac s = high_frac t" by simp_all
    ultimately show ?thesis by (simp only: hi2 mid) simp
  qed
qed

lemma floor_upper_bound:
  fixes n m :: int
  assumes "0 \<le> m" "m < n" "n < 2 ^ J"
  shows "\<lfloor>(of_int ((2 ^ J * m) div n) + 1) / 2 ^ J * (of_int n :: rat)\<rfloor> = m"
proof -
  define K where "K = (2 ^ J * m) div n"
  define r where "r = (2 ^ J * m) mod n"
  from assms have pos: "0 < n" by simp
  have e: "2 ^ J * m = n * K + r" by (simp add: K_def r_def)
  have r: "0 \<le> r" "r < n" using pos by (simp_all add: r_def)
  have lo: "m * 2 ^ J \<le> (K + 1) * n" using e r by (simp add: algebra_simps)
  have "(K + 1) * n = 2 ^ J * m + (n - r)" using e by (simp add: algebra_simps)
  also have "\<dots> < 2 ^ J * m + 2 ^ J" using r assms by simp
  finally have up: "(K + 1) * n < (m + 1) * 2 ^ J" by (simp add: algebra_simps)
  have eq: "(of_int K + 1) / 2 ^ J * (of_int n :: rat) = of_int ((K + 1) * n) / of_int (2 ^ J)"
    by simp
  have "((K + 1) * n) div 2 ^ J = m"
  proof (rule int_div_pos_eq)
    show "(K + 1) * n = 2 ^ J * m + ((K + 1) * n - 2 ^ J * m)" by simp
    show "0 \<le> (K + 1) * n - 2 ^ J * m" using lo by (simp add: mult.commute)
    show "(K + 1) * n - 2 ^ J * m < 2 ^ J" using up by (simp add: algebra_simps)
  qed
  then show ?thesis
    unfolding K_def [symmetric] eq by (simp only: floor_divide_of_int_eq)
qed

text \<open>
  Claim C1, amended. Let the modulus \<open>n\<close> be odd, let \<open>m\<close> in \<open>[0, n)\<close> be the plaintext of
  the target ciphertext, and let the key double plaintexts as textbook RSA does, so that the
  oracle's truthful answers are about \<open>2 ^ (i + 1) * m mod n\<close>. Then the attack runs its
  \<open>bit_length n\<close> rounds and ends with \<open>\<lfloor>high_frac * n\<rfloor> = m\<close> exactly; what
  \<open>decrypt_attack\<close> returns is the byte form of \<open>m\<close>.
\<close>

theorem attack_recovers_plaintext:
  assumes "odd (rsa_n (rsa oracle))"
    and "0 \<le> m" and "m < rsa_n (rsa oracle)"
    and "\<forall>x. rsa_decrypt (rsa oracle) ((x * rsa_encrypt (rsa oracle) 2) mod rsa_n (rsa oracle))
            = (2 * rsa_decrypt (rsa oracle) x) mod rsa_n (rsa oracle)"
    and "rsa_decrypt (rsa oracle) c = m"
  shows "\<exists>s. attack_run oracle c = Inr s \<and>
     \<lfloor>high_frac s * of_int (rsa_n (rsa oracle))\<rfloor> = m \<and>
     decrypt_attack oracle c = Inr (integer_to_bytes_squeezed m)"
proof -
  let ?n = "rsa_n (rsa oracle)"
  let ?J = "bit_length ?n"
  from assms(2,3) have nz: "?n \<noteq> 0" and pos: "0 < ?n" by simp_all
  from nz have bl: "0 < ?J" using bit_length_eq_0_iff [of ?n] by auto
  from bit_length_upper [of ?n] pos have lt: "?n < 2 ^ ?J" by simp
  from rounds_defined [OF nz] obtain s where s: "rounds oracle c ?J = Inr s" by blast
  from rounds_bisection [OF assms s]
  have "high_frac s = (of_int ((2 ^ ?J * m) div ?n) + 1) / 2 ^ ?J" by simp
  with floor_upper_bound [OF assms(2,3) lt]
  have fl: "\<lfloor>high_frac s * of_int ?n\<rfloor> = m" by simp
  from rounds_low_high [OF s] have "high s = high_frac s * of_int ?n"
    by (simp add: mult.commute)
  with fl rounds_logs [OF s] bl s show ?thesis
    by (simp add: decrypt_attack_def attack_run_def)
qed

theorem attack_recovers_plaintext_witness:
  "odd (rsa_n (rsa toy_oracle)) \<and> (0::int) \<le> 20 \<and> 20 < rsa_n (rsa toy_oracle) \<and>
   (\<forall>x. rsa_decrypt (rsa toy_oracle) ((x * rsa_encrypt (rsa toy_oracle) 2) mod rsa_n (rsa toy_oracle))
            = (2 * rsa_decrypt (rsa toy_oracle) x) mod rsa_n (rsa toy_oracle)) \<and>
   rsa_decrypt (rsa toy_oracle) 14 = 20 \<and>
   (\<exists>s. attack_run toy_oracle 14 = Inr s \<and> \<lfloor>high_frac s * 33\<rfloor> = 20) \<and>
   decrypt_attack toy_oracle 14 = Inr [20]"
proof -
  have hom: "\<forall>x. rsa_decrypt (rsa toy_oracle) ((x * rsa_encrypt (rsa toy_oracle) 2) mod rsa_n (rsa toy_oracle))
            = (2 * rsa_decrypt (rsa toy_oracle) x) mod rsa_n (rsa toy_oracle)"
    by (intro allI toy_homomorphic)
  have m: "rsa_decrypt (rsa toy_oracle) 14 = 20" by (simp add: toy_simps)
  have o: "odd (rsa_n (rsa toy_oracle))" by (simp add: toy_simps)
  have r: "(0::int) \<le> 20" "20 < rsa_n (rsa toy_oracle)" by (simp_all add: toy_simps)
  have b: "integer_to_bytes_squeezed 20 = [20]"
    by (simp add: integer_to_bytes_squeezed.simps)
  from attack_recovers_plaintext [OF o r hom m] b o r hom m show ?thesis
    by (auto simp: toy_simps)
qed

text \<open>
  Claim C1 as stated, for every modulus, fails when the modulus is even. With the key
  \<open>n = 10\<close>, \<open>e = d = 3\<close> the plaintext \<open>m = 7\<close> has the ciphertext \<open>3\<close>; the key
  doubles plaintexts (\<open>even_homomorphic\<close>), so every answer is the truth about
  \<open>2 ^ (i + 1) * 7 mod 10\<close>, which is even in all four rounds. The attack ends with
  \<open>high_frac = 1 / 16\<close> and \<open>\<lfloor>high_frac * n\<rfloor> = 0\<close>, not \<open>7\<close>.
\<close>

theorem convergence_fails_for_even_modulus:
  "rsa_n (rsa even_oracle) = 10 \<and> rsa_encrypt (rsa even_oracle) 7 = 3 \<and>
   rsa_decrypt (rsa even_oracle) 3 = 7 \<and>
   attack_run even_oracle 3 =
     Inr \<lparr>cipher = 8, low_frac = 0, high_frac = 1 / 16, low = 0, high = 5 / 8,
          msg = Some [], stdout = [(0, [5]), (1, [2]), (2, [1]), (3, [])],
          queries = [4, 2, 6, 8]\<rparr> \<and>
   \<lfloor>(1 / 16 :: rat) * of_int (rsa_n (rsa even_oracle))\<rfloor> = 0 \<and>
   \<lfloor>(1 / 16 :: rat) * of_int (rsa_n (rsa even_oracle))\<rfloor> \<noteq> rsa_decrypt (rsa even_oracle) 3 \<and>
   decrypt_attack even_oracle 3 = Inr [] \<and>
   decrypt_attack even_oracle 3 \<noteq> Inr (integer_to_bytes_squeezed 7)"
  by code_simp

end
